theory Spec2Isabelle
  imports Main "HOL-Library.Word"
begin

unbundle bit_operations_syntax

section \<open>Type catalogue (\<^verbatim>\<open>_bond_types.py\<close>)\<close>

datatype BondType =
    Stop | StopBase | Bool | Uint8 | Uint16 | Uint32 | Uint64 | Float | Double
  | String | Struct | List | Set | Map | Int8 | Int16 | Int32 | Int64 | Wstring
  | Unavailable

text \<open>
  \<^verbatim>\<open>BondType(n)\<close>: the member of the \<^verbatim>\<open>IntEnum\<close> with code \<open>n\<close>. Python raises
  \<^verbatim>\<open>ValueError\<close> for a number that is no member; that is \<open>None\<close> here.
\<close>

definition BondType_of :: "int \<Rightarrow> BondType option" where
  "BondType_of n =
     (if n = 0 then Some Stop else if n = 1 then Some StopBase
      else if n = 2 then Some Bool else if n = 3 then Some Uint8
      else if n = 4 then Some Uint16 else if n = 5 then Some Uint32
      else if n = 6 then Some Uint64 else if n = 7 then Some Float
      else if n = 8 then Some Double else if n = 9 then Some String
      else if n = 10 then Some Struct else if n = 11 then Some List
      else if n = 12 then Some Set else if n = 13 then Some Map
      else if n = 14 then Some Int8 else if n = 15 then Some Int16
      else if n = 16 then Some Int32 else if n = 17 then Some Int64
      else if n = 18 then Some Wstring else if n = 127 then Some Unavailable
      else None)"

section \<open>Value tree (\<^verbatim>\<open>_madeleine.py\<close>)\<close>

text \<open>
  A \<^verbatim>\<open>BondValue\<close> is a Python object with the attributes \<^verbatim>\<open>id\<close>, \<^verbatim>\<open>type\<close> and
  \<^verbatim>\<open>value\<close>. The class defines neither \<^verbatim>\<open>__eq__\<close> nor \<^verbatim>\<open>__hash__\<close>, so two
  objects are equal (and collide as dictionary keys) exactly when they are the same
  object. The model therefore gives every object its identity \<open>oid\<close>, the number of
  objects allocated before it. A string payload is its list of code points, a float
  payload the raw bytes that \<^verbatim>\<open>struct.unpack\<close> was given, a \<^verbatim>\<open>dict\<close> its entries in
  insertion order.
\<close>

datatype BondValue =
    BondValue (oid: nat) (bv_id: int) (bv_type: BondType) (bv_value: payload)
and payload =
    PNone
  | PInt int
  | PBool bool
  | PFloat "8 word list"
  | PStr "nat list"
  | PList "BondValue list"
  | PDict "(BondValue \<times> BondValue) list"

datatype error =
    IndexError | StructError | ValueError | OverflowError | OSError
  | StringReadError | WStringReadError

definition get_elements :: "BondValue \<Rightarrow> BondValue list" where
  "get_elements self =
     (if bv_type self = List \<or> bv_type self = Set \<or> bv_type self = Struct
      then (case bv_value self of PList xs \<Rightarrow> xs | _ \<Rightarrow> [])
      else [])"

fun get_by_id_loop :: "BondValue list \<Rightarrow> int \<Rightarrow> BondValue option" where
  "get_by_id_loop [] i = None"
| "get_by_id_loop (element # elements) i =
     (if bv_id element = i then Some element else get_by_id_loop elements i)"

definition get_by_id :: "BondValue \<Rightarrow> int \<Rightarrow> BondValue option" where
  "get_by_id self i = get_by_id_loop (get_elements self) i"

text \<open>\<^verbatim>\<open>ids[index]\<close> for a Python tuple: negative indices count from the end,
  anything outside raises \<^verbatim>\<open>IndexError\<close> (\<open>None\<close>).\<close>

definition py_index :: "'a list \<Rightarrow> int \<Rightarrow> 'a option" where
  "py_index xs i =
     (if 0 \<le> i \<and> i < int (length xs) then Some (xs ! nat i)
      else if - int (length xs) \<le> i \<and> i < 0 then Some (xs ! nat (int (length xs) + i))
      else None)"

lemma size_get_elements: "size_list size (get_elements v) < size v"
  by (cases v) (auto simp: get_elements_def split: payload.splits)

text \<open>
  \<^verbatim>\<open>traverse(self, *ids, index=0)\<close>. The recursive call of the source is
  \<^verbatim>\<open>element.traverse(index + 1, *ids)\<close>: every argument is positional, so the callee's
  \<^verbatim>\<open>ids\<close> is \<open>(index + 1) # ids\<close> and its \<^verbatim>\<open>index\<close> keeps the default \<open>0\<close>.
  \<open>traverse_loop\<close> is the \<^verbatim>\<open>for element in elements\<close> loop.
\<close>

function traverse :: "BondValue \<Rightarrow> int list \<Rightarrow> int \<Rightarrow> error + BondValue"
  and traverse_loop :: "BondValue \<Rightarrow> BondValue list \<Rightarrow> int list \<Rightarrow> int \<Rightarrow> error + BondValue"
where
  "traverse self ids index = traverse_loop self (get_elements self) ids index"
| "traverse_loop self [] ids index = Inr self"
| "traverse_loop self (element # elements) ids index =
     (case py_index ids index of
        None \<Rightarrow> Inl IndexError
      | Some i \<Rightarrow>
          if bv_id element = i
          then (if index = int (length ids) - 1 then Inr element
                else traverse element ((index + 1) # ids) 0)
          else traverse_loop self elements ids index)"
  by pat_completeness auto
termination
  by (relation "measure (\<lambda>x. case x of
          Inl (self, ids, index) \<Rightarrow> size self
        | Inr (self, elements, ids, index) \<Rightarrow> size_list size elements)")
     (auto simp: size_get_elements)

section \<open>The byte source\<close>

text \<open>
  The \<^verbatim>\<open>BufferedReader\<close> is its bytes and its position; \<open>fresh\<close> is the identity the
  next allocated \<^verbatim>\<open>BondValue\<close> gets. A call either raises (\<open>Inl\<close>) or returns a value
  and the state it leaves.
\<close>

record state =
  buf :: "8 word list"
  pos :: nat
  fresh :: nat

type_synonym 'a outcome = "error + ('a \<times> state)"

text \<open>\<^verbatim>\<open>data.read(n)\<close> returns the next \<open>n\<close> bytes, or fewer at the end of the data,
  and moves the position past what it returned.\<close>

definition read :: "nat \<Rightarrow> state \<Rightarrow> 8 word list \<times> state" where
  "read n st =
     (let bs = take n (drop (pos st) (buf st)) in (bs, st\<lparr>pos := pos st + length bs\<rparr>))"

text \<open>\<^verbatim>\<open>data.read(1)[0]\<close>: indexing the empty \<^verbatim>\<open>bytes\<close> raises \<^verbatim>\<open>IndexError\<close>.\<close>

definition read_byte :: "state \<Rightarrow> int outcome" where
  "read_byte st =
     (case read 1 st of
        ([], st') \<Rightarrow> Inl IndexError
      | (b # bs, st') \<Rightarrow> Inr (uint b, st'))"

text \<open>
  Sizes and offsets handed to the reader are converted to 64-bit signed machine integers
  (\<^verbatim>\<open>Py_ssize_t\<close>, \<^verbatim>\<open>Py_off_t\<close>), whose largest value is \<open>ssize_max\<close>.
\<close>

definition ssize_max :: int where
  "ssize_max = 2 ^ 63 - 1"

text \<open>
  \<^verbatim>\<open>data.read(n)\<close> for a computed length: \<open>- 1\<close> reads everything that is left, any other
  negative length raises \<^verbatim>\<open>ValueError\<close>, and a length of \<open>ssize_max\<close> or more raises
  \<^verbatim>\<open>OverflowError\<close> (the integer does not fit the machine size, or the result would
  be too large a byte string).
\<close>

definition read_n :: "int \<Rightarrow> state \<Rightarrow> 8 word list outcome" where
  "read_n n st =
     (if n = - 1 then Inr (read (length (buf st)) st)
      else if n < 0 then Inl ValueError
      else if ssize_max \<le> n then Inl OverflowError
      else Inr (read (nat n) st))"

text \<open>
  \<^verbatim>\<open>data.seek(count, 1)\<close>: a relative seek, also past the end of the data. An offset
  that does not fit 64 bits raises \<^verbatim>\<open>ValueError\<close>; a target position that is negative
  or does not fit 64 bits is refused by the underlying file with \<^verbatim>\<open>OSError\<close>.
\<close>

definition seek_cur :: "int \<Rightarrow> state \<Rightarrow> unit outcome" where
  "seek_cur count st =
     (if count < - ssize_max - 1 \<or> ssize_max < count then Inl ValueError
      else if int (pos st) + count < 0 \<or> ssize_max < int (pos st) + count then Inl OSError
      else Inr ((), st\<lparr>pos := nat (int (pos st) + count)\<rparr>))"

text \<open>\<^verbatim>\<open>int.from_bytes(bs, byteorder="little")\<close>.\<close>

definition from_bytes_little :: "8 word list \<Rightarrow> int" where
  "from_bytes_little bs = foldr (\<lambda>b acc. uint b + 256 * acc) bs 0"

lemma read_byte_eq:
  "read_byte st =
     (if pos st < length (buf st)
      then Inr (uint (buf st ! pos st), st\<lparr>pos := Suc (pos st)\<rparr>)
      else Inl IndexError)"
proof (cases "pos st < length (buf st)")
  case True
  then have "drop (pos st) (buf st) = buf st ! pos st # drop (Suc (pos st)) (buf st)"
    by (simp add: Cons_nth_drop_Suc)
  with True show ?thesis
    by (simp add: read_byte_def read_def)
next
  case False
  then show ?thesis
    by (simp add: read_byte_def read_def)
qed

lemma read_byte_Inr:
  "read_byte st = Inr (b, st') \<Longrightarrow>
     pos st < length (buf st) \<and> st' = st\<lparr>pos := Suc (pos st)\<rparr> \<and> b = uint (buf st ! pos st)"
  by (auto simp: read_byte_eq split: if_splits)

lemma read_byte_Inl:
  "read_byte st = Inl e \<Longrightarrow> length (buf st) \<le> pos st \<and> e = IndexError"
  by (auto simp: read_byte_eq split: if_splits)

section \<open>Variable-length integers (\<^verbatim>\<open>_uleb.py\<close>)\<close>

function uleb128_loop :: "state \<Rightarrow> int \<Rightarrow> nat \<Rightarrow> int outcome" where
  "uleb128_loop st result shift =
     (case read_byte st of
        Inl e \<Rightarrow> Inl e
      | Inr (b, st') \<Rightarrow>
          (let result' = result OR push_bit shift (b AND 0x7F) in
           if b AND 0x80 = 0 then Inr (result', st')
           else uleb128_loop st' result' (shift + 7)))"
  by pat_completeness auto
termination
  by (relation "measure (\<lambda>(st, result, shift). length (buf st) - pos st)")
     (auto dest!: read_byte_Inr)

declare uleb128_loop.simps [simp del]

definition uleb128_decode :: "state \<Rightarrow> int outcome" where
  "uleb128_decode st = uleb128_loop st 0 0"

definition sleb128_decode :: "state \<Rightarrow> int outcome" where
  "sleb128_decode st =
     (case uleb128_decode st of
        Inl e \<Rightarrow> Inl e
      | Inr (u, st') \<Rightarrow> Inr (drop_bit 1 u XOR (- (u AND 1)), st'))"

section \<open>Tag bytes (\<^verbatim>\<open>_bond_reader.py\<close>)\<close>

definition type_and_id :: "state \<Rightarrow> (int \<times> BondType) outcome" where
  "type_and_id st =
     (case read_byte st of
        Inl e \<Rightarrow> Inl e
      | Inr (id_and_type, st1) \<Rightarrow>
          (case BondType_of (id_and_type AND 0x1F) of
             None \<Rightarrow> Inl ValueError
           | Some bond_type \<Rightarrow>
               (let i = drop_bit 5 id_and_type in
                if i = 6 then
                  (case read_byte st1 of
                     Inl e \<Rightarrow> Inl e
                   | Inr (i', st2) \<Rightarrow> Inr ((i', bond_type), st2))
                else if i = 7 then
                  (case read 2 st1 of (bs, st2) \<Rightarrow> Inr ((from_bytes_little bs, bond_type), st2))
                else Inr ((i, bond_type), st1))))"

definition get_type_count :: "state \<Rightarrow> (BondType \<times> int) outcome" where
  "get_type_count st =
     (case read_byte st of
        Inl e \<Rightarrow> Inl e
      | Inr (len_and_type, st1) \<Rightarrow>
          (case BondType_of (len_and_type AND 0x1F) of
             None \<Rightarrow> Inl ValueError
           | Some bond_type \<Rightarrow>
               (let n = drop_bit 5 len_and_type in
                if n = 0 then
                  (case uleb128_decode st1 of
                     Inl e \<Rightarrow> Inl e
                   | Inr (n', st2) \<Rightarrow> Inr ((bond_type, n'), st2))
                else Inr ((bond_type, n - 1), st1))))"

section \<open>Text codecs\<close>

text \<open>
  \<^verbatim>\<open>bytes.decode("utf-8")\<close> with strict error handling, as the reader calls it: the
  code points of the text, or \<open>None\<close> where Python raises \<^verbatim>\<open>UnicodeDecodeError\<close>
  (a stray or missing continuation byte, an overlong form, a surrogate, a code point
  above \<open>0x10FFFF\<close>).
\<close>

definition continuation :: "8 word \<Rightarrow> bool" where
  "continuation b = (0x80 \<le> unat b \<and> unat b \<le> 0xBF)"

fun utf8_decode :: "8 word list \<Rightarrow> nat list option" where
  "utf8_decode [] = Some []"
| "utf8_decode (b0 # rest) =
     (if unat b0 < 0x80 then map_option ((#) (unat b0)) (utf8_decode rest)
      else if 0xC0 \<le> unat b0 \<and> unat b0 < 0xE0 then
        (case rest of
           b1 # r \<Rightarrow>
             (let cp = (unat b0 - 0xC0) * 64 + (unat b1 - 0x80) in
              if continuation b1 \<and> 0x80 \<le> cp
              then map_option ((#) cp) (utf8_decode r) else None)
         | _ \<Rightarrow> None)
      else if 0xE0 \<le> unat b0 \<and> unat b0 < 0xF0 then
        (case rest of
           b1 # b2 # r \<Rightarrow>
             (let cp = (unat b0 - 0xE0) * 4096 + (unat b1 - 0x80) * 64 + (unat b2 - 0x80) in
              if continuation b1 \<and> continuation b2 \<and> 0x800 \<le> cp
                 \<and> \<not> (0xD800 \<le> cp \<and> cp \<le> 0xDFFF)
              then map_option ((#) cp) (utf8_decode r) else None)
         | _ \<Rightarrow> None)
      else if 0xF0 \<le> unat b0 \<and> unat b0 < 0xF8 then
        (case rest of
           b1 # b2 # b3 # r \<Rightarrow>
             (let cp = (unat b0 - 0xF0) * 262144 + (unat b1 - 0x80) * 4096
                        + (unat b2 - 0x80) * 64 + (unat b3 - 0x80) in
              if continuation b1 \<and> continuation b2 \<and> continuation b3
                 \<and> 0x10000 \<le> cp \<and> cp \<le> 0x10FFFF
              then map_option ((#) cp) (utf8_decode r) else None)
         | _ \<Rightarrow> None)
      else None)"

text \<open>
  \<^verbatim>\<open>bytes.decode("utf-16")\<close>: a leading byte order mark selects the byte order and is
  dropped, without one the order is the platform's (little-endian); an odd number of
  bytes and an unpaired surrogate raise \<^verbatim>\<open>UnicodeDecodeError\<close>.
\<close>

fun utf16_units :: "bool \<Rightarrow> 8 word list \<Rightarrow> nat list option" where
  "utf16_units big [] = Some []"
| "utf16_units big [b] = None"
| "utf16_units big (b0 # b1 # rest) =
     map_option ((#) (if big then unat b0 * 256 + unat b1 else unat b0 + 256 * unat b1))
       (utf16_units big rest)"

fun utf16_points :: "nat list \<Rightarrow> nat list option" where
  "utf16_points [] = Some []"
| "utf16_points (u # us) =
     (if u < 0xD800 \<or> 0xDFFF < u then map_option ((#) u) (utf16_points us)
      else if u < 0xDC00 then
        (case us of
           lo # us' \<Rightarrow>
             if 0xDC00 \<le> lo \<and> lo \<le> 0xDFFF
             then map_option ((#) (0x10000 + (u - 0xD800) * 1024 + (lo - 0xDC00)))
                    (utf16_points us')
             else None
         | [] \<Rightarrow> None)
      else None)"

definition utf16_decode :: "8 word list \<Rightarrow> nat list option" where
  "utf16_decode bs =
     (case (case bs of
              b0 # b1 # rest \<Rightarrow>
                if b0 = 0xFF \<and> b1 = 0xFE then utf16_units False rest
                else if b0 = 0xFE \<and> b1 = 0xFF then utf16_units True rest
                else utf16_units False bs
            | _ \<Rightarrow> utf16_units False bs) of
        None \<Rightarrow> None
      | Some us \<Rightarrow> utf16_points us)"

section \<open>The reader (\<^verbatim>\<open>_bond_reader.py\<close>)\<close>

definition read_blobs :: "int \<Rightarrow> state \<Rightarrow> unit outcome" where
  "read_blobs count st = seek_cur count st"

definition read_wstring :: "state \<Rightarrow> nat list outcome" where
  "read_wstring st =
     (case uleb128_decode st of
        Inl e \<Rightarrow> Inl e
      | Inr (len, st1) \<Rightarrow>
          (case read_n (len * 2) st1 of
             Inl e \<Rightarrow> Inl e
           | Inr (bs, st2) \<Rightarrow>
               (case utf16_decode bs of
                  None \<Rightarrow> Inl WStringReadError
                | Some dat \<Rightarrow> Inr (dat, st2))))"

definition read_string :: "state \<Rightarrow> nat list outcome" where
  "read_string st =
     (case uleb128_decode st of
        Inl e \<Rightarrow> Inl e
      | Inr (len, st1) \<Rightarrow>
          (case read_n len st1 of
             Inl e \<Rightarrow> Inl e
           | Inr (bs, st2) \<Rightarrow>
               (case utf8_decode bs of
                  None \<Rightarrow> Inl StringReadError
                | Some dat \<Rightarrow> Inr (dat, st2))))"

text \<open>
  \<^verbatim>\<open>struct.unpack(fmt, data.read(n))\<close> raises \<^verbatim>\<open>struct.error\<close> unless it is given
  exactly \<open>n\<close> bytes.
\<close>

definition read_exactly :: "nat \<Rightarrow> state \<Rightarrow> 8 word list outcome" where
  "read_exactly n st =
     (case read n st of (bs, st') \<Rightarrow> if length bs = n then Inr (bs, st') else Inl StructError)"

text \<open>
  The functions of the reader call each other recursively through \<^verbatim>\<open>_read_value\<close>.
  Each of them is given here with the value reader it calls as the argument \<open>rv\<close>;
  \<open>read_value\<close> below closes the recursion. The nesting of values and the number of
  rounds of the \<^verbatim>\<open>while True\<close> loop are bounded by a counter, and a run that exceeds it
  has the result \<open>None\<close>.
\<close>

type_synonym 'a run = "'a outcome option"

type_synonym value_reader = "int \<Rightarrow> BondType \<Rightarrow> state \<Rightarrow> BondValue run"

fun read_list_loop ::
  "value_reader \<Rightarrow> BondType \<Rightarrow> nat \<Rightarrow> state \<Rightarrow> BondValue list \<Rightarrow> BondValue list run"
where
  "read_list_loop rv t 0 st values = Some (Inr (values, st))"
| "read_list_loop rv t (Suc n) st values =
     (case rv 0 t st of
        None \<Rightarrow> None
      | Some (Inl e) \<Rightarrow> Some (Inl e)
      | Some (Inr (val, st')) \<Rightarrow> read_list_loop rv t n st' (values @ [val]))"

text \<open>\<^verbatim>\<open>_read_list(data, type)\<close>: the parameter \<^verbatim>\<open>type\<close> is overwritten by the element
  type before it is used.\<close>

definition read_list :: "value_reader \<Rightarrow> state \<Rightarrow> BondValue list run" where
  "read_list rv st =
     (case get_type_count st of
        Inl e \<Rightarrow> Some (Inl e)
      | Inr ((t, count), st1) \<Rightarrow>
          if t = List \<or> t = Int8 \<or> t = Uint8
          then (case read_blobs count st1 of
                  Inl e \<Rightarrow> Some (Inl e)
                | Inr (u, st2) \<Rightarrow> Some (Inr ([], st2)))
          else read_list_loop rv t (nat count) st1 [])"

text \<open>\<^verbatim>\<open>values[key] = value\<close> on a \<^verbatim>\<open>dict\<close> whose keys are \<^verbatim>\<open>BondValue\<close> objects:
  an entry whose key is the same object gets the new value, otherwise the entry is
  added at the end.\<close>

fun dict_set ::
  "(BondValue \<times> BondValue) list \<Rightarrow> BondValue \<Rightarrow> BondValue \<Rightarrow> (BondValue \<times> BondValue) list"
where
  "dict_set [] key val = [(key, val)]"
| "dict_set ((k, v) # d) key val =
     (if oid k = oid key then (k, val) # d else (k, v) # dict_set d key val)"

fun read_map_loop ::
  "value_reader \<Rightarrow> BondType \<Rightarrow> BondType \<Rightarrow> nat \<Rightarrow> state \<Rightarrow> (BondValue \<times> BondValue) list
     \<Rightarrow> (BondValue \<times> BondValue) list run"
where
  "read_map_loop rv key_type value_type 0 st values = Some (Inr (values, st))"
| "read_map_loop rv key_type value_type (Suc n) st values =
     (case rv 0 key_type st of
        None \<Rightarrow> None
      | Some (Inl e) \<Rightarrow> Some (Inl e)
      | Some (Inr (key, st1)) \<Rightarrow>
          (case rv 0 value_type st1 of
             None \<Rightarrow> None
           | Some (Inl e) \<Rightarrow> Some (Inl e)
           | Some (Inr (val, st2)) \<Rightarrow>
               read_map_loop rv key_type value_type n st2 (dict_set values key val)))"

definition read_type_byte :: "state \<Rightarrow> BondType outcome" where
  "read_type_byte st =
     (case read_byte st of
        Inl e \<Rightarrow> Inl e
      | Inr (b, st') \<Rightarrow>
          (case BondType_of (b AND 0x1F) of
             None \<Rightarrow> Inl ValueError
           | Some t \<Rightarrow> Inr (t, st')))"

definition read_map :: "value_reader \<Rightarrow> state \<Rightarrow> (BondValue \<times> BondValue) list run" where
  "read_map rv st =
     (case read_type_byte st of
        Inl e \<Rightarrow> Some (Inl e)
      | Inr (key_type, st1) \<Rightarrow>
          (case read_type_byte st1 of
             Inl e \<Rightarrow> Some (Inl e)
           | Inr (value_type, st2) \<Rightarrow>
               (case uleb128_decode st2 of
                  Inl e \<Rightarrow> Some (Inl e)
                | Inr (count, st3) \<Rightarrow>
                    read_map_loop rv key_type value_type (nat count) st3 [])))"

definition read_field :: "value_reader \<Rightarrow> state \<Rightarrow> BondValue run" where
  "read_field rv st =
     (case type_and_id st of
        Inl e \<Rightarrow> Some (Inl e)
      | Inr ((i, t), st1) \<Rightarrow> rv i t st1)"

fun read_struct_loop ::
  "nat \<Rightarrow> value_reader \<Rightarrow> state \<Rightarrow> BondValue list \<Rightarrow> BondValue list run"
where
  "read_struct_loop 0 rv st values = None"
| "read_struct_loop (Suc n) rv st values =
     (case read_field rv st of
        None \<Rightarrow> None
      | Some (Inl e) \<Rightarrow> Some (Inl e)
      | Some (Inr (val, st')) \<Rightarrow>
          if bv_type val = Stop then Some (Inr (values, st'))
          else if bv_type val = StopBase then read_struct_loop n rv st' values
          else read_struct_loop n rv st' (values @ [val]))"

definition read_struct :: "nat \<Rightarrow> value_reader \<Rightarrow> state \<Rightarrow> BondValue list run" where
  "read_struct n rv st =
     (case uleb128_decode st of
        Inl e \<Rightarrow> Some (Inl e)
      | Inr (len, st1) \<Rightarrow> read_struct_loop n rv st1 [])"

text \<open>The \<^verbatim>\<open>match type\<close> of \<^verbatim>\<open>_read_value\<close>: what is assigned to \<^verbatim>\<open>val.value\<close>.\<close>

definition payload_of :: "('a \<Rightarrow> 'b) \<Rightarrow> 'a outcome \<Rightarrow> 'b run" where
  "payload_of f r = (case r of Inl e \<Rightarrow> Some (Inl e) | Inr (x, st) \<Rightarrow> Some (Inr (f x, st)))"

definition payload_of_run :: "('a \<Rightarrow> 'b) \<Rightarrow> 'a run \<Rightarrow> 'b run" where
  "payload_of_run f r =
     (case r of
        None \<Rightarrow> None
      | Some (Inl e) \<Rightarrow> Some (Inl e)
      | Some (Inr (x, st)) \<Rightarrow> Some (Inr (f x, st)))"

definition read_payload :: "nat \<Rightarrow> value_reader \<Rightarrow> BondType \<Rightarrow> state \<Rightarrow> payload run" where
  "read_payload n rv t st =
     (if t = Struct then payload_of_run PList (read_struct n rv st)
      else if t = Int32 \<or> t = Int64 \<or> t = Int16 then payload_of PInt (sleb128_decode st)
      else if t = Uint16 \<or> t = Uint32 \<or> t = Uint64 then payload_of PInt (uleb128_decode st)
      else if t = Uint8 then payload_of PInt (read_byte st)
      else if t = Int8 then payload_of (\<lambda>bs. PInt (sint (hd bs))) (read_exactly 1 st)
      else if t = Bool then payload_of (\<lambda>b. PBool (b \<noteq> 0)) (read_byte st)
      else if t = Float then payload_of PFloat (read_exactly 4 st)
      else if t = Double then payload_of PFloat (read_exactly 8 st)
      else if t = Set \<or> t = List then payload_of_run PList (read_list rv st)
      else if t = Map then payload_of_run PDict (read_map rv st)
      else if t = Wstring then payload_of PStr (read_wstring st)
      else if t = String then payload_of PStr (read_string st)
      else Some (Inr (PNone, st)))"

text \<open>
  \<^verbatim>\<open>_read_value\<close> first creates the object \<^verbatim>\<open>BondValue(id, type, None)\<close>, which takes
  the next identity, then fills in its value.
\<close>

definition read_value_step ::
  "nat \<Rightarrow> value_reader \<Rightarrow> int \<Rightarrow> BondType \<Rightarrow> state \<Rightarrow> BondValue run"
where
  "read_value_step n rv i t st =
     payload_of_run (BondValue (fresh st) i t)
       (read_payload n rv t (st\<lparr>fresh := Suc (fresh st)\<rparr>))"

primrec read_value :: "nat \<Rightarrow> value_reader" where
  "read_value 0 = (\<lambda>i t st. None)"
| "read_value (Suc n) = read_value_step n (read_value n)"


section \<open>Reference notions and sample data\<close>

text \<open>The value a sequence of varint bytes denotes: seven payload bits per byte, least
  significant group first.\<close>

fun base128_value :: "8 word list \<Rightarrow> int" where
  "base128_value [] = 0"
| "base128_value (b # bs) = uint b mod 128 + 128 * base128_value bs"

text \<open>A root struct whose child with id 1 is a struct holding a string "x" with id 2.\<close>

definition path_leaf :: BondValue where
  "path_leaf = BondValue 2 2 String (PStr [120])"

definition path_mid :: BondValue where
  "path_mid = BondValue 1 1 Struct (PList [path_leaf])"

definition path_root :: BondValue where
  "path_root = BondValue 0 0 Struct (PList [path_mid])"

text \<open>What a call may do to the state: it leaves the bytes alone and moves the position
  and the allocation counter forward only. A value reader is allocating when each value
  it returns is a new object.\<close>

definition evolves :: "state \<Rightarrow> state \<Rightarrow> bool" where
  "evolves st st' \<longleftrightarrow> buf st' = buf st \<and> pos st \<le> pos st' \<and> fresh st \<le> fresh st'"

definition allocating :: "value_reader \<Rightarrow> bool" where
  "allocating rv \<longleftrightarrow>
     (\<forall>i t st v st'. rv i t st = Some (Inr (v, st')) \<longrightarrow>
        evolves st st' \<and> oid v = fresh st \<and> fresh st < fresh st')"



fun fields_in_order :: "value_reader \<Rightarrow> state \<Rightarrow> BondValue list \<Rightarrow> state \<Rightarrow> bool" where
  "fields_in_order rv st [] st' = (st' = st)"
| "fields_in_order rv st (f # fs) st' =
     (case read_field rv st of
        Some (Inr (f', st1)) \<Rightarrow> f' = f \<and> bv_type f \<noteq> Stop \<and> fields_in_order rv st1 fs st'
      | _ \<Rightarrow> False)"

fun pairs_in_order ::
  "value_reader \<Rightarrow> BondType \<Rightarrow> BondType \<Rightarrow> state \<Rightarrow> (BondValue \<times> BondValue) list \<Rightarrow> state \<Rightarrow> bool"
where
  "pairs_in_order rv kt vt st [] st' = (st' = st)"
| "pairs_in_order rv kt vt st ((k, v) # ps) st' =
     (case rv 0 kt st of
        Some (Inr (k', st1)) \<Rightarrow>
          (case rv 0 vt st1 of
             Some (Inr (v', st2)) \<Rightarrow> k' = k \<and> v' = v \<and> pairs_in_order rv kt vt st2 ps st'
           | _ \<Rightarrow> False)
      | _ \<Rightarrow> False)"


text \<open>
  Comparing two runs of the reader on different buffers: \<open>with_buf B r\<close> is the result
  \<open>r\<close> with the buffer of its final state replaced by \<open>B\<close>; two buffers agree from a
  position on when they hold the same bytes from there to the end; a value reader is
  \<open>framed\<close> when its result depends only on the bytes from the current position on.
\<close>

fun with_buf :: "8 word list \<Rightarrow> 'a outcome \<Rightarrow> 'a outcome" where
  "with_buf B (Inl e) = Inl e"
| "with_buf B (Inr (x, st)) = Inr (x, st\<lparr>buf := B\<rparr>)"

definition with_buf_run :: "8 word list \<Rightarrow> 'a run \<Rightarrow> 'a run" where
  "with_buf_run B r = map_option (with_buf B) r"

definition agree_from :: "nat \<Rightarrow> 8 word list \<Rightarrow> 8 word list \<Rightarrow> bool" where
  "agree_from p B B' \<longleftrightarrow> drop p B = drop p B'"

definition framed :: "value_reader \<Rightarrow> bool" where
  "framed rv \<longleftrightarrow>
     (\<forall>i t st B. agree_from (pos st) B (buf st) \<longrightarrow>
        rv i t (st\<lparr>buf := B\<rparr>) = with_buf_run B (rv i t st))"

(*PROPERTIES*)
section \<open>Properties\<close>

subsection \<open>Auxiliary facts\<close>

lemma or_push_bit_add:
  fixes r :: int
  assumes "0 \<le> r" "r < 2 ^ s"
  shows "r OR push_bit s x = r + push_bit s x"
proof -
  have r: "take_bit s r = r"
    using assms by (simp add: take_bit_int_eq_self)
  have "\<not> bit r n \<or> \<not> bit (push_bit s x) n" for n
  proof (cases "n < s")
    case True
    then show ?thesis by (simp add: bit_push_bit_iff)
  next
    case False
    then have "\<not> bit (take_bit s r) n" by (simp add: bit_take_bit_iff)
    then show ?thesis using r by simp
  qed
  then show ?thesis by (rule disjunctive_add [symmetric])
qed

lemma and_7F: "(b::int) AND 0x7F = b mod 128"
proof -
  have "b AND mask 7 = b mod 2 ^ 7"
    by (simp only: take_bit_eq_mask [symmetric] take_bit_eq_mod)
  then show ?thesis by (simp add: mask_eq_exp_minus_1)
qed

lemma uleb128_loop_exact:
  "uleb128_loop st r s = Inr (v, st') \<Longrightarrow> 0 \<le> r \<Longrightarrow> r < 2 ^ s \<Longrightarrow>
     st' = st\<lparr>pos := pos st'\<rparr> \<and> pos st < pos st' \<and> pos st' \<le> length (buf st) \<and>
     v = r + 2 ^ s * base128_value (take (pos st' - pos st) (drop (pos st) (buf st)))"
proof (induction st r s rule: uleb128_loop.induct)
  case (1 st r s)
  from "1.prems"(1) obtain b st1 where rb: "read_byte st = Inr (b, st1)"
    by (subst (asm) uleb128_loop.simps) (auto split: sum.splits)
  then have p: "pos st < length (buf st)" and st1: "st1 = st\<lparr>pos := Suc (pos st)\<rparr>"
    and b: "b = uint (buf st ! pos st)"
    by (auto dest: read_byte_Inr)
  define r' where "r' = r OR push_bit s (b AND 0x7F)"
  have r'_eq: "r' = r + 2 ^ s * (b mod 128)"
    unfolding r'_def using "1.prems"(2,3)
    by (simp only: or_push_bit_add and_7F) (simp add: push_bit_eq_mult)
  have bm: "0 \<le> b mod 128" "b mod 128 < 128" by simp_all
  have r'0: "0 \<le> r'" using "1.prems"(2) bm(1) by (simp add: r'_eq)
  have "r' \<le> (2 ^ s - 1) + 2 ^ s * 127"
    unfolding r'_eq using "1.prems"(3) bm(2) by (intro add_mono mult_left_mono) auto
  also have "\<dots> < 2 ^ (s + 7)" by (simp add: power_add)
  finally have r'lt: "r' < 2 ^ (s + 7)" .
  have dr: "drop (pos st) (buf st) = buf st ! pos st # drop (Suc (pos st)) (buf st)"
    using p by (simp add: Cons_nth_drop_Suc)
  show ?case
  proof (cases "b AND 0x80 = 0")
    case True
    with "1.prems"(1) rb have "v = r'" "st' = st1"
      by (subst (asm) uleb128_loop.simps, simp add: r'_def Let_def)+
    then show ?thesis using p st1 b dr by (simp add: r'_eq)
  next
    case False
    with "1.prems"(1) rb have rec: "uleb128_loop st1 r' (s + 7) = Inr (v, st')"
      by (subst (asm) uleb128_loop.simps) (simp add: r'_def Let_def)
    from "1.IH" [OF rb refl r'_def False rec r'0 r'lt]
    have ih: "st' = st1\<lparr>pos := pos st'\<rparr>" "pos st1 < pos st'" "pos st' \<le> length (buf st1)"
      "v = r' + 2 ^ (s + 7) * base128_value (take (pos st' - pos st1) (drop (pos st1) (buf st1)))"
      by auto
    have "pos st' - pos st = Suc (pos st' - Suc (pos st))" using ih(2) st1 by simp
    then show ?thesis using ih st1 dr b
      by (simp add: r'_eq power_add algebra_simps)
  qed
qed

lemma uleb128_loop_long:
  "pos st + k < length (buf st) \<Longrightarrow> (\<forall>i<k. buf st ! (pos st + i) = 0x80) \<Longrightarrow>
   buf st ! (pos st + k) = 0x01 \<Longrightarrow>
   uleb128_loop st r s = Inr (r OR push_bit (s + 7 * k) 1, st\<lparr>pos := pos st + k + 1\<rparr>)"
proof (induction k arbitrary: st r s)
  case 0
  then have "read_byte st = Inr (1, st\<lparr>pos := Suc (pos st)\<rparr>)"
    by (simp add: read_byte_eq)
  then show ?case
    by (subst uleb128_loop.simps) (simp del: push_bit_and)
next
  case (Suc k)
  let ?st1 = "st\<lparr>pos := Suc (pos st)\<rparr>"
  have b: "buf st ! pos st = 0x80"
    using Suc.prems(2) by (metis add.right_neutral zero_less_Suc)
  have "uleb128_loop ?st1 r (s + 7)
          = Inr (r OR push_bit (s + 7 + 7 * k) 1, ?st1\<lparr>pos := pos ?st1 + k + 1\<rparr>)"
  proof (rule Suc.IH)
    show "pos ?st1 + k < length (buf ?st1)" using Suc.prems(1) by simp
    show "\<forall>i<k. buf ?st1 ! (pos ?st1 + i) = 0x80"
    proof (intro allI impI)
      fix i assume "i < k"
      then have "buf st ! (pos st + Suc i) = 0x80" using Suc.prems(2) by (meson Suc_less_eq)
      then show "buf ?st1 ! (pos ?st1 + i) = 0x80" by simp
    qed
    show "buf ?st1 ! (pos ?st1 + k) = 0x01" using Suc.prems(3) by simp
  qed
  moreover have "read_byte st = Inr (128, ?st1)"
    using Suc.prems(1) b by (simp add: read_byte_eq)
  ultimately show ?case
    by (subst uleb128_loop.simps) (simp add: add.assoc del: push_bit_and)
qed

lemma uleb128_decode_long:
  "uleb128_decode \<lparr>buf = replicate k 0x80 @ [0x01], pos = 0, fresh = f\<rparr>
     = Inr (128 ^ k, \<lparr>buf = replicate k 0x80 @ [0x01], pos = k + 1, fresh = f\<rparr>)"
proof -
  let ?st = "\<lparr>buf = replicate k 0x80 @ [0x01], pos = 0, fresh = f\<rparr>"
  have "uleb128_loop ?st 0 0 = Inr (0 OR push_bit (0 + 7 * k) 1, ?st\<lparr>pos := pos ?st + k + 1\<rparr>)"
    by (rule uleb128_loop_long) (simp_all add: nth_append)
  moreover have "(128::int) ^ k = 2 ^ (7 * k)" by (simp add: power_mult)
  ultimately show ?thesis by (simp add: uleb128_decode_def push_bit_eq_mult)
qed

lemma drop_bit_5_byte: "0 \<le> drop_bit 5 (uint (b :: 8 word)) \<and> drop_bit 5 (uint b) \<le> 7"
proof -
  have "0 \<le> uint b" "uint b < 256" using uint_bounded [of b] by simp_all
  then have "0 \<le> uint b div 32 \<and> uint b div 32 \<le> 7" by presburger
  then show ?thesis by (simp add: drop_bit_eq_div)
qed

lemma read_2:
  assumes "pos st + 2 \<le> length (buf st)"
  shows "read 2 st = ([buf st ! pos st, buf st ! Suc (pos st)], st\<lparr>pos := pos st + 2\<rparr>)"
proof -
  from assms have "drop (pos st) (buf st)
      = buf st ! pos st # buf st ! Suc (pos st) # drop (Suc (Suc (pos st))) (buf st)"
    by (simp add: Cons_nth_drop_Suc)
  then show ?thesis by (simp add: read_def numeral_2_eq_2)
qed

subsection \<open>How the reader moves through the state\<close>

lemma allocatingD:
  "allocating rv \<Longrightarrow> rv i t st = Some (Inr (v, st')) \<Longrightarrow>
     evolves st st' \<and> oid v = fresh st \<and> fresh st < fresh st'"
  unfolding allocating_def by blast

lemma base128_value_nonneg: "0 \<le> base128_value bs"
  by (induction bs) simp_all

lemma read_evolves: "read n st = (bs, st') \<Longrightarrow> evolves st st' \<and> fresh st' = fresh st"
  by (auto simp: read_def evolves_def Let_def)

lemma read_byte_evolves: "read_byte st = Inr (b, st') \<Longrightarrow> evolves st st' \<and> fresh st' = fresh st"
  by (auto simp: evolves_def dest!: read_byte_Inr)

lemma uleb128_decode_evolves:
  assumes "uleb128_decode st = Inr (v, st')"
  shows "evolves st st' \<and> fresh st' = fresh st \<and> pos st < pos st' \<and> 0 \<le> v"
proof -
  from assms have *: "st' = st\<lparr>pos := pos st'\<rparr>" "pos st < pos st'"
    "v = base128_value (take (pos st' - pos st) (drop (pos st) (buf st)))"
    using uleb128_loop_exact [of st 0 0 v st'] by (simp_all add: uleb128_decode_def)
  from *(1) have "buf st' = buf st \<and> fresh st' = fresh st"
    by (metis state.select_convs(1,3) state.surjective state.update_convs(2))
  with * show ?thesis by (simp add: evolves_def base128_value_nonneg)
qed

lemma sleb128_decode_evolves:
  "sleb128_decode st = Inr (v, st') \<Longrightarrow> evolves st st' \<and> fresh st' = fresh st"
  by (auto simp: sleb128_decode_def split: sum.splits dest: uleb128_decode_evolves)

lemma type_and_id_evolves:
  "type_and_id st = Inr (r, st') \<Longrightarrow> evolves st st' \<and> fresh st' = fresh st \<and> pos st < pos st'"
  by (auto simp: type_and_id_def Let_def evolves_def read_def
      split: sum.splits option.splits if_splits prod.splits dest!: read_byte_Inr)

lemma get_type_count_evolves:
  "get_type_count st = Inr (r, st') \<Longrightarrow> evolves st st' \<and> fresh st' = fresh st \<and> pos st < pos st'"
  by (auto simp: get_type_count_def Let_def evolves_def
      split: sum.splits option.splits if_splits prod.splits
      dest!: read_byte_Inr uleb128_decode_evolves)

lemma get_type_count_nonneg:
  assumes "get_type_count st = Inr ((t, count), st')"
  shows "0 \<le> count"
proof -
  from assms obtain b st1 where b: "read_byte st = Inr (b, st1)"
    by (auto simp: get_type_count_def split: sum.splits)
  then have "b = uint (buf st ! pos st)" by (auto dest: read_byte_Inr)
  then have d: "0 \<le> drop_bit 5 b" using drop_bit_5_byte by simp
  show ?thesis
  proof (cases "drop_bit 5 b = 0")
    case True
    with assms b show ?thesis
      by (auto simp: get_type_count_def Let_def
          split: sum.splits option.splits dest!: uleb128_decode_evolves)
  next
    case False
    with assms b have "count = drop_bit 5 b - 1"
      by (auto simp: get_type_count_def Let_def split: sum.splits option.splits)
    with d False show ?thesis by linarith
  qed
qed

lemma read_type_byte_evolves:
  "read_type_byte st = Inr (r, st') \<Longrightarrow> evolves st st' \<and> fresh st' = fresh st \<and> pos st < pos st'"
  by (auto simp: read_type_byte_def evolves_def
      split: sum.splits option.splits dest!: read_byte_Inr)

lemma read_n_evolves:
  "read_n n st = Inr (bs, st') \<Longrightarrow> evolves st st' \<and> fresh st' = fresh st"
  by (auto simp: read_n_def read_def evolves_def Let_def split: if_splits)

lemma seek_cur_evolves:
  "0 \<le> count \<Longrightarrow> seek_cur count st = Inr (u, st') \<Longrightarrow>
     evolves st st' \<and> fresh st' = fresh st"
  by (auto simp: seek_cur_def evolves_def split: if_splits)

lemma read_string_evolves:
  "read_string st = Inr (r, st') \<Longrightarrow> evolves st st' \<and> fresh st' = fresh st"
  by (auto simp: read_string_def evolves_def
      split: sum.splits option.splits prod.splits
      dest!: uleb128_decode_evolves read_n_evolves)

lemma read_wstring_evolves:
  "read_wstring st = Inr (r, st') \<Longrightarrow> evolves st st' \<and> fresh st' = fresh st"
  by (auto simp: read_wstring_def evolves_def
      split: sum.splits option.splits prod.splits
      dest!: uleb128_decode_evolves read_n_evolves)

lemma read_exactly_evolves:
  "read_exactly n st = Inr (r, st') \<Longrightarrow> evolves st st' \<and> fresh st' = fresh st"
  by (auto simp: read_exactly_def evolves_def read_def Let_def split: if_splits)

lemma payload_of_Inr:
  "payload_of f r = Some (Inr (p, st')) \<Longrightarrow> \<exists>x. r = Inr (x, st') \<and> p = f x"
  by (auto simp: payload_of_def split: sum.splits)

lemma payload_of_run_Inr:
  "payload_of_run f r = Some (Inr (p, st')) \<Longrightarrow> \<exists>x. r = Some (Inr (x, st')) \<and> p = f x"
  by (auto simp: payload_of_run_def split: sum.splits option.splits)

lemma read_list_loop_evolves:
  "allocating rv \<Longrightarrow> read_list_loop rv t n st acc = Some (Inr (vs, st')) \<Longrightarrow>
     evolves st st'"
proof (induction n arbitrary: st acc)
  case 0
  then show ?case by (simp add: evolves_def)
next
  case (Suc n)
  from Suc.prems(2) obtain v st1 where 1: "rv 0 t st = Some (Inr (v, st1))"
    and 2: "read_list_loop rv t n st1 (acc @ [v]) = Some (Inr (vs, st'))"
    by (auto split: option.splits sum.splits)
  from 1 Suc.prems(1) have "evolves st st1" by (auto simp: allocating_def)
  moreover from Suc.IH [OF Suc.prems(1) 2] have "evolves st1 st'" .
  ultimately show ?case by (auto simp: evolves_def)
qed

lemma read_list_evolves:
  assumes "allocating rv" "read_list rv st = Some (Inr (vs, st'))"
  shows "evolves st st'"
proof -
  from assms(2) obtain t count st1 where g: "get_type_count st = Inr ((t, count), st1)"
    by (auto simp: read_list_def split: sum.splits)
  from get_type_count_evolves [OF g] have e: "evolves st st1" by simp
  from get_type_count_nonneg [OF g] have c: "0 \<le> count" .
  show ?thesis
  proof (cases "t = List \<or> t = Int8 \<or> t = Uint8")
    case True
    with assms(2) g obtain u where "seek_cur count st1 = Inr (u, st')"
      by (auto simp: read_list_def read_blobs_def split: sum.splits)
    from seek_cur_evolves [OF c this] e show ?thesis by (auto simp: evolves_def)
  next
    case False
    with assms(2) g have "read_list_loop rv t (nat count) st1 [] = Some (Inr (vs, st'))"
      by (auto simp: read_list_def)
    from read_list_loop_evolves [OF assms(1) this] e show ?thesis by (auto simp: evolves_def)
  qed
qed

lemma read_map_loop_evolves:
  "allocating rv \<Longrightarrow> read_map_loop rv kt vt n st acc = Some (Inr (d, st')) \<Longrightarrow>
     evolves st st'"
proof (induction n arbitrary: st acc)
  case 0
  then show ?case by (simp add: evolves_def)
next
  case (Suc n)
  from Suc.prems(2) obtain k st1 v st2 where 1: "rv 0 kt st = Some (Inr (k, st1))"
    and 2: "rv 0 vt st1 = Some (Inr (v, st2))"
    and 3: "read_map_loop rv kt vt n st2 (dict_set acc k v) = Some (Inr (d, st'))"
    by (auto split: option.splits sum.splits)
  from 1 2 Suc.prems(1) have "evolves st st1" "evolves st1 st2" by (auto simp: allocating_def)
  moreover from Suc.IH [OF Suc.prems(1) 3] have "evolves st2 st'" .
  ultimately show ?case by (auto simp: evolves_def)
qed

lemma read_map_evolves:
  "allocating rv \<Longrightarrow> read_map rv st = Some (Inr (d, st')) \<Longrightarrow> evolves st st'"
  by (auto simp: read_map_def evolves_def
      split: sum.splits prod.splits
      dest!: read_type_byte_evolves uleb128_decode_evolves read_map_loop_evolves)

lemma read_field_evolves:
  "allocating rv \<Longrightarrow> read_field rv st = Some (Inr (v, st')) \<Longrightarrow>
     evolves st st' \<and> pos st < pos st'"
proof -
  assume a: "allocating rv" and r: "read_field rv st = Some (Inr (v, st'))"
  from r obtain i t st1 where 1: "type_and_id st = Inr ((i, t), st1)"
    and 2: "rv i t st1 = Some (Inr (v, st'))"
    by (auto simp: read_field_def split: sum.splits prod.splits)
  from type_and_id_evolves [OF 1] allocatingD [OF a 2] show ?thesis
    by (auto simp: evolves_def)
qed

lemma read_struct_loop_evolves:
  "allocating rv \<Longrightarrow> read_struct_loop n rv st acc = Some (Inr (vs, st')) \<Longrightarrow>
     evolves st st'"
proof (induction n arbitrary: st acc)
  case 0
  then show ?case by simp
next
  case (Suc n)
  from Suc.prems(2) obtain v st1 where 1: "read_field rv st = Some (Inr (v, st1))"
    by (auto split: option.splits sum.splits)
  with Suc.prems(1) have e: "evolves st st1" by (auto dest: read_field_evolves)
  show ?case
  proof (cases "bv_type v = Stop")
    case True
    with Suc.prems(2) 1 e show ?thesis by simp
  next
    case False
    with Suc.prems(2) 1 have "\<exists>acc'. read_struct_loop n rv st1 acc' = Some (Inr (vs, st'))"
      by (auto split: if_splits)
    with Suc.IH [OF Suc.prems(1)] have "evolves st1 st'" by blast
    with e show ?thesis by (auto simp: evolves_def)
  qed
qed

lemma read_struct_evolves:
  "allocating rv \<Longrightarrow> read_struct n rv st = Some (Inr (vs, st')) \<Longrightarrow> evolves st st'"
  by (auto simp: read_struct_def evolves_def
      split: sum.splits prod.splits
      dest!: uleb128_decode_evolves read_struct_loop_evolves)

lemma read_payload_evolves:
  assumes "allocating rv" "read_payload n rv t st = Some (Inr (p, st'))"
  shows "evolves st st'"
proof -
  consider "t = Struct" | "t = Int32 \<or> t = Int64 \<or> t = Int16" | "t = Uint16 \<or> t = Uint32 \<or> t = Uint64"
    | "t = Uint8" | "t = Int8" | "t = Bool" | "t = Float" | "t = Double" | "t = Set \<or> t = List"
    | "t = Map" | "t = Wstring" | "t = String" | "t = Stop \<or> t = StopBase \<or> t = Unavailable"
    by (cases t) auto
  then show ?thesis
  proof cases
    case 1
    with assms show ?thesis
      by (auto simp: read_payload_def dest!: payload_of_run_Inr read_struct_evolves [OF assms(1)])
  next
    case 2
    with assms show ?thesis
      by (auto simp: read_payload_def dest!: payload_of_Inr sleb128_decode_evolves)
  next
    case 3
    with assms show ?thesis
      by (auto simp: read_payload_def dest!: payload_of_Inr uleb128_decode_evolves)
  next
    case 4
    with assms show ?thesis
      by (auto simp: read_payload_def dest!: payload_of_Inr read_byte_evolves)
  next
    case 5
    with assms show ?thesis
      by (auto simp: read_payload_def dest!: payload_of_Inr read_exactly_evolves)
  next
    case 6
    with assms show ?thesis
      by (auto simp: read_payload_def dest!: payload_of_Inr read_byte_evolves)
  next
    case 7
    with assms show ?thesis
      by (auto simp: read_payload_def dest!: payload_of_Inr read_exactly_evolves)
  next
    case 8
    with assms show ?thesis
      by (auto simp: read_payload_def dest!: payload_of_Inr read_exactly_evolves)
  next
    case 9
    with assms show ?thesis
      by (auto simp: read_payload_def dest!: payload_of_run_Inr read_list_evolves [OF assms(1)])
  next
    case 10
    with assms show ?thesis
      by (auto simp: read_payload_def dest!: payload_of_run_Inr read_map_evolves [OF assms(1)])
  next
    case 11
    with assms show ?thesis
      by (auto simp: read_payload_def dest!: payload_of_Inr read_wstring_evolves)
  next
    case 12
    with assms show ?thesis
      by (auto simp: read_payload_def dest!: payload_of_Inr read_string_evolves)
  next
    case 13
    with assms show ?thesis
      by (auto simp: read_payload_def evolves_def)
  qed
qed

lemma read_value_step_allocating:
  assumes "allocating rv"
  shows "allocating (read_value_step n rv)"
  unfolding allocating_def
proof (intro allI impI)
  fix i t st v st'
  assume "read_value_step n rv i t st = Some (Inr (v, st'))"
  then obtain p where p: "read_payload n rv t (st\<lparr>fresh := Suc (fresh st)\<rparr>) = Some (Inr (p, st'))"
    and v: "v = BondValue (fresh st) i t p"
    by (auto simp: read_value_step_def dest!: payload_of_run_Inr)
  from read_payload_evolves [OF assms p] v
  show "evolves st st' \<and> oid v = fresh st \<and> fresh st < fresh st'"
    by (auto simp: evolves_def)
qed

lemma read_value_allocating: "allocating (read_value n)"
proof (induction n)
  case 0
  show ?case by (simp add: allocating_def)
next
  case (Suc n)
  then show ?case by (simp add: read_value_step_allocating)
qed

subsection \<open>Loops as sequences of reads\<close>


lemma fields_in_order_Cons:
  "fields_in_order rv st (f # fs) st' \<longleftrightarrow>
     (\<exists>st1. read_field rv st = Some (Inr (f, st1)) \<and> bv_type f \<noteq> Stop
        \<and> fields_in_order rv st1 fs st')"
  by (auto split: option.splits sum.splits)

lemma pairs_in_order_Cons:
  "pairs_in_order rv kt vt st ((k, v) # ps) st' \<longleftrightarrow>
     (\<exists>st1 st2. rv 0 kt st = Some (Inr (k, st1)) \<and> rv 0 vt st1 = Some (Inr (v, st2))
        \<and> pairs_in_order rv kt vt st2 ps st')"
proof (cases "rv 0 kt st")
  case None
  then show ?thesis by simp
next
  case (Some r)
  show ?thesis
  proof (cases r)
    case (Inl e)
    with Some show ?thesis by simp
  next
    case (Inr x)
    obtain k' st1 where x: "x = (k', st1)" by (cases x)
    show ?thesis using Some Inr x
      by (cases "rv 0 vt st1") (auto split: sum.splits)
  qed
qed


lemma read_value_id_type:
  "read_value n i t st = Some (Inr (v, st')) \<Longrightarrow> bv_id v = i \<and> bv_type v = t \<and> oid v = fresh st"
  by (cases n) (auto simp: read_value_step_def dest!: payload_of_run_Inr)



lemma fields_in_order_append:
  "fields_in_order rv st (fs @ gs) st' \<longleftrightarrow>
     (\<exists>st1. fields_in_order rv st fs st1 \<and> fields_in_order rv st1 gs st')"
proof (induction fs arbitrary: st)
  case Nil
  show ?case by simp
next
  case (Cons f fs)
  show ?case unfolding append_Cons fields_in_order_Cons Cons.IH by blast
qed











lemma dict_set_new:
  "\<forall>p\<in>set d. oid (fst p) \<noteq> oid k \<Longrightarrow> dict_set d k v = d @ [(k, v)]"
  by (induction d) auto

lemma read_map_loop_numeral:
  "read_map_loop rv kt vt (numeral k) st acc
     = read_map_loop rv kt vt (Suc (pred_numeral k)) st acc"
  by (simp only: numeral_eq_Suc)

lemma pairs_in_order_oids:
  "allocating rv \<Longrightarrow> pairs_in_order rv kt vt st ps st' \<Longrightarrow>
     fresh st \<le> fresh st'
     \<and> (\<forall>p\<in>set ps. fresh st \<le> oid (fst p) \<and> oid (fst p) < fresh st')
     \<and> distinct (map (\<lambda>p. oid (fst p)) ps)"
proof (induction ps arbitrary: st)
  case Nil
  then show ?case by simp
next
  case (Cons p ps)
  obtain k v where p: "p = (k, v)" by (cases p)
  from Cons.prems(2) obtain st1 st2 where 1: "rv 0 kt st = Some (Inr (k, st1))"
    and 2: "rv 0 vt st1 = Some (Inr (v, st2))"
    and 3: "pairs_in_order rv kt vt st2 ps st'"
    unfolding p pairs_in_order_Cons by blast
  from allocatingD [OF Cons.prems(1) 1] have k: "oid k = fresh st" "fresh st < fresh st1"
    by simp_all
  from allocatingD [OF Cons.prems(1) 2] have v: "fresh st1 < fresh st2" by simp
  from Cons.IH [OF Cons.prems(1) 3] have ih: "fresh st2 \<le> fresh st'"
    "\<forall>p\<in>set ps. fresh st2 \<le> oid (fst p) \<and> oid (fst p) < fresh st'"
    "distinct (map (\<lambda>p. oid (fst p)) ps)"
    by simp_all
  from k v ih(1,2) have "\<forall>q\<in>set ps. oid (fst q) \<noteq> oid k" by fastforce
  with k v ih show ?case unfolding p by fastforce
qed

lemma read_map_loop_iff:
  assumes "allocating rv"
  shows "\<forall>p\<in>set acc. oid (fst p) < fresh st \<Longrightarrow>
     read_map_loop rv kt vt n st acc = Some (Inr (d, st')) \<longleftrightarrow>
       (\<exists>ps. d = acc @ ps \<and> length ps = n \<and> pairs_in_order rv kt vt st ps st')"
proof (induction n arbitrary: st acc)
  case 0
  show ?case by auto
next
  case (Suc n)
  show ?case
  proof
    assume a: "read_map_loop rv kt vt (Suc n) st acc = Some (Inr (d, st'))"
    then obtain k st1 where 1: "rv 0 kt st = Some (Inr (k, st1))"
      by (auto split: option.splits sum.splits)
    with a obtain v st2 where 2: "rv 0 vt st1 = Some (Inr (v, st2))"
      by (auto split: option.splits sum.splits)
    from allocatingD [OF assms 1] have k: "oid k = fresh st" "fresh st < fresh st1" by simp_all
    from allocatingD [OF assms 2] have v: "fresh st1 < fresh st2" by simp
    from Suc.prems k have "\<forall>p\<in>set acc. oid (fst p) \<noteq> oid k" by fastforce
    then have ds: "dict_set acc k v = acc @ [(k, v)]" by (rule dict_set_new)
    from a 1 2 have 3: "read_map_loop rv kt vt n st2 (acc @ [(k, v)]) = Some (Inr (d, st'))"
      by (simp add: ds)
    have inv: "\<forall>p\<in>set (acc @ [(k, v)]). oid (fst p) < fresh st2"
      using Suc.prems k v by fastforce
    from 3 Suc.IH [OF inv] obtain ps where "d = (acc @ [(k, v)]) @ ps" "length ps = n"
      "pairs_in_order rv kt vt st2 ps st'" by blast
    with 1 2 have "d = acc @ ((k, v) # ps) \<and> length ((k, v) # ps) = Suc n
        \<and> pairs_in_order rv kt vt st ((k, v) # ps) st'"
      by simp
    then show "\<exists>ps. d = acc @ ps \<and> length ps = Suc n \<and> pairs_in_order rv kt vt st ps st'"
      by blast
  next
    assume "\<exists>ps. d = acc @ ps \<and> length ps = Suc n \<and> pairs_in_order rv kt vt st ps st'"
    then obtain p ps where ps: "d = acc @ p # ps" "length ps = n"
      "pairs_in_order rv kt vt st (p # ps) st'"
      by (auto simp: length_Suc_conv)
    obtain k v where p: "p = (k, v)" by (cases p)
    from ps(3) obtain st1 st2 where 1: "rv 0 kt st = Some (Inr (k, st1))"
      and 2: "rv 0 vt st1 = Some (Inr (v, st2))"
      and 3: "pairs_in_order rv kt vt st2 ps st'"
      unfolding p pairs_in_order_Cons by blast
    from allocatingD [OF assms 1] have k: "oid k = fresh st" "fresh st < fresh st1" by simp_all
    from allocatingD [OF assms 2] have v: "fresh st1 < fresh st2" by simp
    from Suc.prems k have "\<forall>p\<in>set acc. oid (fst p) \<noteq> oid k" by fastforce
    then have ds: "dict_set acc k v = acc @ [(k, v)]" by (rule dict_set_new)
    have inv: "\<forall>p\<in>set (acc @ [(k, v)]). oid (fst p) < fresh st2"
      using Suc.prems k v by fastforce
    from ps(1,2) 3 have "read_map_loop rv kt vt n st2 (acc @ [(k, v)]) = Some (Inr (d, st'))"
      unfolding Suc.IH [OF inv] p by auto
    with 1 2 show "read_map_loop rv kt vt (Suc n) st acc = Some (Inr (d, st'))"
      by (simp add: ds)
  qed
qed

lemma with_buf_run_simps [simp]:
  "with_buf_run B None = None"
  "with_buf_run B (Some r) = Some (with_buf B r)"
  by (simp_all add: with_buf_run_def)

lemma agree_from_later:
  assumes "agree_from p B B'" "p \<le> q"
  shows "agree_from q B B'"
proof -
  have "drop q B = drop (q - p) (drop p B)" using assms(2) by simp
  also have "\<dots> = drop (q - p) (drop p B')" using assms(1) by (simp add: agree_from_def)
  also have "\<dots> = drop q B'" using assms(2) by simp
  finally show ?thesis by (simp add: agree_from_def)
qed

lemma agree_from_evolves:
  "agree_from (pos st) B (buf st) \<Longrightarrow> evolves st st' \<Longrightarrow> agree_from (pos st') B (buf st')"
  using agree_from_later [of "pos st" B "buf st" "pos st'"] by (simp add: evolves_def)

lemma framedD:
  "framed rv \<Longrightarrow> agree_from (pos st) B (buf st) \<Longrightarrow>
     rv i t (st\<lparr>buf := B\<rparr>) = with_buf_run B (rv i t st)"
  unfolding framed_def by blast

lemma read_frame:
  "agree_from (pos st) B (buf st) \<Longrightarrow>
     read n (st\<lparr>buf := B\<rparr>) = (fst (read n st), (snd (read n st))\<lparr>buf := B\<rparr>)"
  by (simp add: read_def agree_from_def Let_def)

lemma read_byte_frame:
  "agree_from (pos st) B (buf st) \<Longrightarrow> read_byte (st\<lparr>buf := B\<rparr>) = with_buf B (read_byte st)"
  by (simp add: read_byte_def read_frame split: list.splits prod.splits)

lemma uleb128_loop_frame:
  "agree_from (pos st) B (buf st) \<Longrightarrow>
     uleb128_loop (st\<lparr>buf := B\<rparr>) r s = with_buf B (uleb128_loop st r s)"
proof (induction st r s rule: uleb128_loop.induct)
  case (1 st r s)
  show ?case
  proof (cases "read_byte st")
    case (Inl e)
    with "1.prems" show ?thesis
      by (subst (1 2) uleb128_loop.simps) (simp add: read_byte_frame)
  next
    case (Inr x)
    obtain b st1 where x: "x = (b, st1)" by (cases x)
    from Inr x have rb: "read_byte st = Inr (b, st1)" by simp
    from read_byte_evolves [OF rb] "1.prems" have a: "agree_from (pos st1) B (buf st1)"
      by (auto intro: agree_from_evolves)
    show ?thesis
    proof (cases "b AND 0x80 = 0")
      case True
      with rb "1.prems" show ?thesis
        by (subst (1 2) uleb128_loop.simps) (simp add: read_byte_frame Let_def)
    next
      case False
      from "1.IH" [OF rb refl refl False a]
      have "uleb128_loop (st1\<lparr>buf := B\<rparr>) (r OR push_bit s (b AND 0x7F)) (s + 7)
          = with_buf B (uleb128_loop st1 (r OR push_bit s (b AND 0x7F)) (s + 7))" .
      with rb False "1.prems" show ?thesis
        by (subst (1 2) uleb128_loop.simps) (simp add: read_byte_frame Let_def)
    qed
  qed
qed

lemma uleb128_decode_frame:
  "agree_from (pos st) B (buf st) \<Longrightarrow>
     uleb128_decode (st\<lparr>buf := B\<rparr>) = with_buf B (uleb128_decode st)"
  by (simp add: uleb128_decode_def uleb128_loop_frame)

lemma sleb128_decode_frame:
  "agree_from (pos st) B (buf st) \<Longrightarrow>
     sleb128_decode (st\<lparr>buf := B\<rparr>) = with_buf B (sleb128_decode st)"
  by (simp add: sleb128_decode_def uleb128_decode_frame split: sum.splits)


lemma type_and_id_frame:
  assumes "agree_from (pos st) B (buf st)"
  shows "type_and_id (st\<lparr>buf := B\<rparr>) = with_buf B (type_and_id st)"
proof (cases "read_byte st")
  case (Inl e)
  with assms show ?thesis by (simp add: type_and_id_def read_byte_frame)
next
  case (Inr x)
  obtain b st1 where x: "x = (b, st1)" by (cases x)
  from Inr x have rb: "read_byte st = Inr (b, st1)" by simp
  from read_byte_evolves [OF rb] assms have a: "agree_from (pos st1) B (buf st1)"
    by (auto intro: agree_from_evolves)
  from rb assms a show ?thesis
    by (cases "read 2 st1")
       (simp add: type_and_id_def read_byte_frame read_frame Let_def
          split: option.splits sum.splits)
qed

lemma get_type_count_frame:
  assumes "agree_from (pos st) B (buf st)"
  shows "get_type_count (st\<lparr>buf := B\<rparr>) = with_buf B (get_type_count st)"
proof (cases "read_byte st")
  case (Inl e)
  with assms show ?thesis by (simp add: get_type_count_def read_byte_frame)
next
  case (Inr x)
  obtain b st1 where x: "x = (b, st1)" by (cases x)
  from Inr x have rb: "read_byte st = Inr (b, st1)" by simp
  from read_byte_evolves [OF rb] assms have a: "agree_from (pos st1) B (buf st1)"
    by (auto intro: agree_from_evolves)
  from rb assms a show ?thesis
    by (simp add: get_type_count_def read_byte_frame uleb128_decode_frame Let_def
          split: option.splits sum.splits)
qed

lemma read_type_byte_frame:
  "agree_from (pos st) B (buf st) \<Longrightarrow>
     read_type_byte (st\<lparr>buf := B\<rparr>) = with_buf B (read_type_byte st)"
  by (simp add: read_type_byte_def read_byte_frame split: option.splits sum.splits)

lemma read_n_frame:
  "agree_from (pos st) B (buf st) \<Longrightarrow> n \<noteq> - 1 \<Longrightarrow>
     read_n n (st\<lparr>buf := B\<rparr>) = with_buf B (read_n n st)"
  by (cases "read (nat n) st") (simp add: read_n_def read_frame)

lemma read_exactly_frame:
  "agree_from (pos st) B (buf st) \<Longrightarrow>
     read_exactly n (st\<lparr>buf := B\<rparr>) = with_buf B (read_exactly n st)"
  by (cases "read n st") (simp add: read_exactly_def read_frame)

lemma seek_cur_frame:
  "seek_cur c (st\<lparr>buf := B\<rparr>) = with_buf B (seek_cur c st)"
  by (simp add: seek_cur_def)

lemma read_string_frame:
  assumes "agree_from (pos st) B (buf st)"
  shows "read_string (st\<lparr>buf := B\<rparr>) = with_buf B (read_string st)"
proof (cases "uleb128_decode st")
  case (Inl e)
  with assms show ?thesis by (simp add: read_string_def uleb128_decode_frame)
next
  case (Inr x)
  obtain len st1 where x: "x = (len, st1)" by (cases x)
  from Inr x have u: "uleb128_decode st = Inr (len, st1)" by simp
  from uleb128_decode_evolves [OF u] assms have a: "agree_from (pos st1) B (buf st1)"
    and l: "0 \<le> len"
    by (auto intro: agree_from_evolves)
  from l have "len \<noteq> - 1" by simp
  from read_n_frame [OF a this] u assms show ?thesis
    by (simp add: read_string_def uleb128_decode_frame split: option.splits sum.splits)
qed

lemma read_wstring_frame:
  assumes "agree_from (pos st) B (buf st)"
  shows "read_wstring (st\<lparr>buf := B\<rparr>) = with_buf B (read_wstring st)"
proof (cases "uleb128_decode st")
  case (Inl e)
  with assms show ?thesis by (simp add: read_wstring_def uleb128_decode_frame)
next
  case (Inr x)
  obtain len st1 where x: "x = (len, st1)" by (cases x)
  from Inr x have u: "uleb128_decode st = Inr (len, st1)" by simp
  from uleb128_decode_evolves [OF u] assms have a: "agree_from (pos st1) B (buf st1)"
    and l: "0 \<le> len"
    by (auto intro: agree_from_evolves)
  from l have "len * 2 \<noteq> - 1" by simp
  from read_n_frame [OF a this] u assms show ?thesis
    by (simp add: read_wstring_def uleb128_decode_frame split: option.splits sum.splits)
qed

lemma read_list_loop_frame:
  assumes "framed rv" "allocating rv"
  shows "agree_from (pos st) B (buf st) \<Longrightarrow>
     read_list_loop rv t n (st\<lparr>buf := B\<rparr>) acc = with_buf_run B (read_list_loop rv t n st acc)"
proof (induction n arbitrary: st acc)
  case 0
  show ?case by simp
next
  case (Suc n)
  note f = framedD [OF assms(1) Suc.prems]
  show ?case
  proof (cases "rv 0 t st")
    case None
    then show ?thesis by (simp add: f)
  next
    case (Some r)
    show ?thesis
    proof (cases r)
      case (Inl e)
      with Some show ?thesis by (simp add: f)
    next
      case (Inr x)
      obtain v st1 where x: "x = (v, st1)" by (cases x)
      from Some Inr x have 1: "rv 0 t st = Some (Inr (v, st1))" by simp
      from allocatingD [OF assms(2) 1] Suc.prems have "agree_from (pos st1) B (buf st1)"
        by (auto intro: agree_from_evolves)
      from Suc.IH [OF this] 1 show ?thesis by (simp add: f)
    qed
  qed
qed

lemma read_list_frame:
  assumes "framed rv" "allocating rv" "agree_from (pos st) B (buf st)"
  shows "read_list rv (st\<lparr>buf := B\<rparr>) = with_buf_run B (read_list rv st)"
proof (cases "get_type_count st")
  case (Inl e)
  with assms(3) show ?thesis by (simp add: read_list_def get_type_count_frame)
next
  case (Inr x)
  obtain t c st1 where x: "x = ((t, c), st1)" by (cases x) auto
  from Inr x have g: "get_type_count st = Inr ((t, c), st1)" by simp
  from get_type_count_evolves [OF g] assms(3) have a: "agree_from (pos st1) B (buf st1)"
    by (auto intro: agree_from_evolves)
  from g assms(3) read_list_loop_frame [OF assms(1,2) a] show ?thesis
    by (simp add: read_list_def get_type_count_frame read_blobs_def seek_cur_frame
        split: sum.splits)
qed

lemma read_map_loop_frame:
  assumes "framed rv" "allocating rv"
  shows "agree_from (pos st) B (buf st) \<Longrightarrow>
     read_map_loop rv kt vt n (st\<lparr>buf := B\<rparr>) acc
       = with_buf_run B (read_map_loop rv kt vt n st acc)"
proof (induction n arbitrary: st acc)
  case 0
  show ?case by simp
next
  case (Suc n)
  note f = framedD [OF assms(1) Suc.prems]
  show ?case
  proof (cases "rv 0 kt st")
    case None
    then show ?thesis by (simp add: f)
  next
    case (Some r)
    show ?thesis
    proof (cases r)
      case (Inl e)
      with Some show ?thesis by (simp add: f)
    next
      case (Inr x)
      obtain k st1 where x: "x = (k, st1)" by (cases x)
      from Some Inr x have 1: "rv 0 kt st = Some (Inr (k, st1))" by simp
      from allocatingD [OF assms(2) 1] Suc.prems have a1: "agree_from (pos st1) B (buf st1)"
        by (auto intro: agree_from_evolves)
      note f1 = framedD [OF assms(1) a1]
      show ?thesis
      proof (cases "rv 0 vt st1")
        case None
        with 1 show ?thesis by (simp add: f f1)
      next
        case (Some r')
        show ?thesis
        proof (cases r')
          case (Inl e)
          with Some 1 show ?thesis by (simp add: f f1)
        next
          case (Inr y)
          obtain v st2 where y: "y = (v, st2)" by (cases y)
          from Some Inr y have 2: "rv 0 vt st1 = Some (Inr (v, st2))" by simp
          from allocatingD [OF assms(2) 2] a1 have "agree_from (pos st2) B (buf st2)"
            by (auto intro: agree_from_evolves)
          from Suc.IH [OF this] 1 2 show ?thesis by (simp add: f f1)
        qed
      qed
    qed
  qed
qed

lemma read_map_frame:
  assumes "framed rv" "allocating rv" "agree_from (pos st) B (buf st)"
  shows "read_map rv (st\<lparr>buf := B\<rparr>) = with_buf_run B (read_map rv st)"
proof (cases "read_type_byte st")
  case (Inl e)
  with assms(3) show ?thesis by (simp add: read_map_def read_type_byte_frame)
next
  case (Inr x)
  obtain kt st1 where x: "x = (kt, st1)" by (cases x)
  from Inr x have 1: "read_type_byte st = Inr (kt, st1)" by simp
  from read_type_byte_evolves [OF 1] assms(3) have a1: "agree_from (pos st1) B (buf st1)"
    by (auto intro: agree_from_evolves)
  show ?thesis
  proof (cases "read_type_byte st1")
    case (Inl e)
    with 1 assms(3) a1 show ?thesis by (simp add: read_map_def read_type_byte_frame)
  next
    case (Inr y)
    obtain vt st2 where y: "y = (vt, st2)" by (cases y)
    from Inr y have 2: "read_type_byte st1 = Inr (vt, st2)" by simp
    from read_type_byte_evolves [OF 2] a1 have a2: "agree_from (pos st2) B (buf st2)"
      by (auto intro: agree_from_evolves)
    show ?thesis
    proof (cases "uleb128_decode st2")
      case (Inl e)
      with 1 2 assms(3) a1 a2 show ?thesis
        by (simp add: read_map_def read_type_byte_frame uleb128_decode_frame)
    next
      case (Inr z)
      obtain c st3 where z: "z = (c, st3)" by (cases z)
      from Inr z have 3: "uleb128_decode st2 = Inr (c, st3)" by simp
      from uleb128_decode_evolves [OF 3] a2 have a3: "agree_from (pos st3) B (buf st3)"
        by (auto intro: agree_from_evolves)
      from 1 2 3 assms(3) a1 a2 read_map_loop_frame [OF assms(1,2) a3] show ?thesis
        by (simp add: read_map_def read_type_byte_frame uleb128_decode_frame)
    qed
  qed
qed

lemma read_field_frame:
  assumes "framed rv" "agree_from (pos st) B (buf st)"
  shows "read_field rv (st\<lparr>buf := B\<rparr>) = with_buf_run B (read_field rv st)"
proof (cases "type_and_id st")
  case (Inl e)
  with assms(2) show ?thesis by (simp add: read_field_def type_and_id_frame)
next
  case (Inr x)
  obtain i t st1 where x: "x = ((i, t), st1)" by (cases x) auto
  from Inr x have 1: "type_and_id st = Inr ((i, t), st1)" by simp
  from type_and_id_evolves [OF 1] assms(2) have a1: "agree_from (pos st1) B (buf st1)"
    by (auto intro: agree_from_evolves)
  from 1 assms(2) framedD [OF assms(1) a1] show ?thesis
    by (simp add: read_field_def type_and_id_frame)
qed

lemma read_struct_loop_frame:
  assumes "framed rv" "allocating rv"
  shows "agree_from (pos st) B (buf st) \<Longrightarrow>
     read_struct_loop n rv (st\<lparr>buf := B\<rparr>) acc
       = with_buf_run B (read_struct_loop n rv st acc)"
proof (induction n arbitrary: st acc)
  case 0
  show ?case by simp
next
  case (Suc n)
  note f = read_field_frame [OF assms(1) Suc.prems]
  show ?case
  proof (cases "read_field rv st")
    case None
    then show ?thesis by (simp add: f)
  next
    case (Some r)
    show ?thesis
    proof (cases r)
      case (Inl e)
      with Some show ?thesis by (simp add: f)
    next
      case (Inr x)
      obtain v st1 where x: "x = (v, st1)" by (cases x)
      from Some Inr x have 1: "read_field rv st = Some (Inr (v, st1))" by simp
      from read_field_evolves [OF assms(2) 1] Suc.prems
      have "agree_from (pos st1) B (buf st1)"
        by (auto intro: agree_from_evolves)
      from Suc.IH [OF this] 1 show ?thesis by (simp add: f)
    qed
  qed
qed

lemma read_struct_frame:
  assumes "framed rv" "allocating rv" "agree_from (pos st) B (buf st)"
  shows "read_struct n rv (st\<lparr>buf := B\<rparr>) = with_buf_run B (read_struct n rv st)"
proof (cases "uleb128_decode st")
  case (Inl e)
  with assms(3) show ?thesis by (simp add: read_struct_def uleb128_decode_frame)
next
  case (Inr x)
  obtain len st1 where x: "x = (len, st1)" by (cases x)
  from Inr x have u: "uleb128_decode st = Inr (len, st1)" by simp
  from uleb128_decode_evolves [OF u] assms(3) have a: "agree_from (pos st1) B (buf st1)"
    by (auto intro: agree_from_evolves)
  from u assms(3) read_struct_loop_frame [OF assms(1,2) a] show ?thesis
    by (simp add: read_struct_def uleb128_decode_frame)
qed

lemma payload_of_frame:
  "payload_of f (with_buf B r) = with_buf_run B (payload_of f r)"
  by (cases r) (auto simp: payload_of_def)

lemma payload_of_run_frame:
  "payload_of_run f (with_buf_run B r) = with_buf_run B (payload_of_run f r)"
  by (auto simp: payload_of_run_def with_buf_run_def split: option.splits sum.splits)

lemma read_payload_frame:
  assumes "framed rv" "allocating rv" "agree_from (pos st) B (buf st)"
  shows "read_payload n rv t (st\<lparr>buf := B\<rparr>) = with_buf_run B (read_payload n rv t st)"
  using assms(3)
  by (simp add: read_payload_def read_struct_frame [OF assms] read_list_frame [OF assms]
      read_map_frame [OF assms] sleb128_decode_frame uleb128_decode_frame read_byte_frame
      read_exactly_frame read_wstring_frame read_string_frame
      payload_of_frame payload_of_run_frame)

lemma read_value_step_framed:
  assumes "framed rv" "allocating rv"
  shows "framed (read_value_step n rv)"
  unfolding framed_def
proof (intro allI impI)
  fix i t B and st :: state
  assume a: "agree_from (pos st) B (buf st)"
  then have "agree_from (pos (st\<lparr>fresh := Suc (fresh st)\<rparr>)) B (buf (st\<lparr>fresh := Suc (fresh st)\<rparr>))"
    by simp
  note p0 = read_payload_frame [OF assms this, of n t]
  have e: "st\<lparr>buf := B, fresh := Suc (fresh st)\<rparr> = st\<lparr>fresh := Suc (fresh st), buf := B\<rparr>"
    by (cases st) simp
  have p: "read_payload n rv t (st\<lparr>buf := B, fresh := Suc (fresh st)\<rparr>)
      = with_buf_run B (read_payload n rv t (st\<lparr>fresh := Suc (fresh st)\<rparr>))"
    unfolding e by (rule p0)
  show "read_value_step n rv i t (st\<lparr>buf := B\<rparr>) = with_buf_run B (read_value_step n rv i t st)"
    unfolding read_value_step_def by (simp add: p payload_of_run_frame)
qed

lemma read_value_framed: "framed (read_value n)"
proof (induction n)
  case 0
  show ?case by (simp add: framed_def)
next
  case (Suc n)
  then show ?case by (simp add: read_value_step_framed read_value_allocating)
qed


lemma read_type_byte_masked:
  assumes "length B = length (buf st)"
    and "pos st < length B \<Longrightarrow> B ! pos st AND 0x1F = buf st ! pos st AND 0x1F"
  shows "read_type_byte (st\<lparr>buf := B\<rparr>) = with_buf B (read_type_byte st)"
proof (cases "pos st < length B")
  case True
  with assms(2) have "uint (B ! pos st AND 0x1F) = uint (buf st ! pos st AND 0x1F)" by simp
  then have "uint (B ! pos st) AND 0x1F = uint (buf st ! pos st) AND 0x1F"
    by (simp add: uint_and)
  with True assms(1) show ?thesis
    by (simp add: read_type_byte_def read_byte_eq split: option.splits)
next
  case False
  with assms(1) show ?thesis by (simp add: read_type_byte_def read_byte_eq)
qed

subsection \<open>Path traversal\<close>

text \<open>
  C1. \<^verbatim>\<open>traverse\<close> is documented to follow the given ids one at a time and to return
  the node reached by the whole path. On the root with a struct child (id 1) that holds
  a string child (id 2), the call \<^verbatim>\<open>traverse(1, 2)\<close> finds the child with id 1, but the
  recursive call hands \<^verbatim>\<open>index + 1\<close> over as the first id and restarts at index 0: the
  child is searched for id 1 instead of id 2, nothing matches, and the node with id 1
  is returned instead of the string node.
\<close>

theorem traverse_restarts_with_index_as_id:
  "traverse path_root [1, 2] 0 = Inr path_mid
   \<and> get_by_id path_mid 2 = Some path_leaf
   \<and> path_mid \<noteq> path_leaf
   \<and> traverse path_root [1, 9] 0 = Inr path_mid"
  by (simp add: path_root_def path_mid_def path_leaf_def get_elements_def py_index_def
      get_by_id_def)

subsection \<open>Tag bytes\<close>

text \<open>
  C4. A field header byte carries the type tag in its low five bits and an id selector
  in its high three bits (a number from 0 to 7). For a catalogued tag: selectors 0 to 5
  are the id and only the header byte is consumed; selector 6 takes the next byte as the
  id (one extra byte); selector 7 takes the next two bytes as a little-endian 16-bit id
  (two extra bytes).
\<close>

theorem type_and_id_packing:
  assumes "pos st < length (buf st)"
    and "BondType_of (uint (buf st ! pos st) AND 0x1F) = Some t"
    and "drop_bit 5 (uint (buf st ! pos st)) = 6 \<longrightarrow> pos st + 1 < length (buf st)"
    and "drop_bit 5 (uint (buf st ! pos st)) = 7 \<longrightarrow> pos st + 2 < length (buf st)"
  shows "type_and_id st =
     (let sel = drop_bit 5 (uint (buf st ! pos st)) in
      if sel = 6 then
        Inr ((uint (buf st ! (pos st + 1)), t), st\<lparr>pos := pos st + 2\<rparr>)
      else if sel = 7 then
        Inr ((uint (buf st ! (pos st + 1)) + 256 * uint (buf st ! (pos st + 2)), t),
             st\<lparr>pos := pos st + 3\<rparr>)
      else Inr ((sel, t), st\<lparr>pos := pos st + 1\<rparr>))
     \<and> 0 \<le> drop_bit 5 (uint (buf st ! pos st)) \<and> drop_bit 5 (uint (buf st ! pos st)) \<le> 7"
proof -
  let ?st1 = "st\<lparr>pos := Suc (pos st)\<rparr>"
  have "read 2 ?st1
      = ([buf st ! Suc (pos st), buf st ! Suc (Suc (pos st))], st\<lparr>pos := pos st + 3\<rparr>)"
    if "pos st + 2 < length (buf st)"
    using that read_2 [of ?st1] by simp
  then show ?thesis using assms drop_bit_5_byte [of "buf st ! pos st"]
    by (simp add: type_and_id_def read_byte_eq Let_def from_bytes_little_def)
qed

theorem type_and_id_packing_witness:
  "type_and_id \<lparr>buf = [0x4A], pos = 0, fresh = 0\<rparr>
     = Inr ((2, Struct), \<lparr>buf = [0x4A], pos = 1, fresh = 0\<rparr>)
   \<and> type_and_id \<lparr>buf = [0xCA, 0x07], pos = 0, fresh = 0\<rparr>
     = Inr ((7, Struct), \<lparr>buf = [0xCA, 0x07], pos = 2, fresh = 0\<rparr>)
   \<and> type_and_id \<lparr>buf = [0xEA, 0x07, 0x01], pos = 0, fresh = 0\<rparr>
     = Inr ((263, Struct), \<lparr>buf = [0xEA, 0x07, 0x01], pos = 3, fresh = 0\<rparr>)"
  using type_and_id_packing [of "\<lparr>buf = [0x4A], pos = 0, fresh = 0\<rparr>" Struct]
    type_and_id_packing [of "\<lparr>buf = [0xCA, 0x07], pos = 0, fresh = 0\<rparr>" Struct]
    type_and_id_packing [of "\<lparr>buf = [0xEA, 0x07, 0x01], pos = 0, fresh = 0\<rparr>" Struct]
  by (simp add: BondType_of_def)

text \<open>
  C5. A container tag byte carries the element type tag in its low five bits and a count
  selector in its high three bits. Selector 0: the count follows as an unsigned varint.
  Any other selector: the count is the selector minus one and only the tag byte is
  consumed. The byte \<open>0b01100011\<close> is element type Uint8 with count 2.
\<close>

theorem get_type_count_packing:
  assumes "pos st < length (buf st)"
    and "BondType_of (uint (buf st ! pos st) AND 0x1F) = Some t"
  shows "get_type_count st =
     (if drop_bit 5 (uint (buf st ! pos st)) = 0
      then (case uleb128_decode (st\<lparr>pos := pos st + 1\<rparr>) of
              Inl e \<Rightarrow> Inl e
            | Inr (n, st') \<Rightarrow> Inr ((t, n), st'))
      else Inr ((t, drop_bit 5 (uint (buf st ! pos st)) - 1), st\<lparr>pos := pos st + 1\<rparr>))
     \<and> get_type_count \<lparr>buf = [0x63], pos = 0, fresh = 0\<rparr>
         = Inr ((Uint8, 2), \<lparr>buf = [0x63], pos = 1, fresh = 0\<rparr>)"
  using assms
  by (simp add: get_type_count_def read_byte_eq Let_def BondType_of_def)

theorem get_type_count_packing_witness:
  "get_type_count \<lparr>buf = [0x0B, 0xAC, 0x02], pos = 0, fresh = 0\<rparr>
     = Inr ((List, 300), \<lparr>buf = [0x0B, 0xAC, 0x02], pos = 3, fresh = 0\<rparr>)"
  using get_type_count_packing [of "\<lparr>buf = [0x0B, 0xAC, 0x02], pos = 0, fresh = 0\<rparr>" List]
  by (simp add: BondType_of_def uleb128_decode_def uleb128_loop.simps read_byte_eq)

subsection \<open>Variable-length integers\<close>

text \<open>
  C9, as the code has it. The accumulator is a Python integer, which has no width: the
  unsigned varint decoder puts no bound on the number of bytes and never wraps. Whenever
  it returns, it has consumed at least one byte, changed nothing but the position, and
  its result is exactly the base-128 value of the bytes consumed. For every \<open>k\<close> the
  \<open>k + 1\<close> bytes \<open>0x80 \<dots> 0x80 0x01\<close> decode to \<open>128 ^ k\<close>.
\<close>

theorem uleb128_decode_exact:
  assumes "uleb128_decode st = Inr (v, st')"
  shows "st' = st\<lparr>pos := pos st'\<rparr> \<and> pos st < pos st' \<and> pos st' \<le> length (buf st)
     \<and> v = base128_value (take (pos st' - pos st) (drop (pos st) (buf st)))
     \<and> uleb128_decode \<lparr>buf = replicate k 0x80 @ [0x01], pos = 0, fresh = f\<rparr>
          = Inr (128 ^ k, \<lparr>buf = replicate k 0x80 @ [0x01], pos = k + 1, fresh = f\<rparr>)"
  using uleb128_loop_exact [of st 0 0 v st'] assms uleb128_decode_long [of k f]
  by (simp add: uleb128_decode_def)

theorem uleb128_decode_exact_witness:
  "uleb128_decode \<lparr>buf = [0xAC, 0x02], pos = 0, fresh = 0\<rparr>
      = Inr (300, \<lparr>buf = [0xAC, 0x02], pos = 2, fresh = 0\<rparr>)
   \<and> (300::int) = base128_value [0xAC, 0x02]"
proof -
  have d: "uleb128_decode \<lparr>buf = [0xAC, 0x02], pos = 0, fresh = 0\<rparr>
      = Inr (300, \<lparr>buf = [0xAC, 0x02], pos = 2, fresh = 0\<rparr>)"
    by (simp add: uleb128_decode_def uleb128_loop.simps read_byte_eq)
  from uleb128_decode_exact [OF d] show ?thesis using d by simp
qed

text \<open>
  The ten bytes \<open>0x80\<close> (nine times), \<open>0x02\<close> denote \<open>2 ^ 64\<close>. The decoder returns
  \<open>2 ^ 64\<close> itself, which is not that value reduced modulo \<open>2 ^ 64\<close>.
\<close>

theorem uleb128_decode_wraps_counterexample:
  "uleb128_decode \<lparr>buf = [0x80,0x80,0x80,0x80,0x80,0x80,0x80,0x80,0x80,0x02], pos = 0, fresh = 0\<rparr>
     = Inr (2 ^ 64,
         \<lparr>buf = [0x80,0x80,0x80,0x80,0x80,0x80,0x80,0x80,0x80,0x02], pos = 10, fresh = 0\<rparr>)
   \<and> base128_value [0x80,0x80,0x80,0x80,0x80,0x80,0x80,0x80,0x80,0x02] = 2 ^ 64
   \<and> (2::int) ^ 64
       \<noteq> base128_value [0x80,0x80,0x80,0x80,0x80,0x80,0x80,0x80,0x80,0x02] mod 2 ^ 64"
  by (simp add: uleb128_decode_def uleb128_loop.simps read_byte_eq)

subsection \<open>Containers\<close>




subsection \<open>The field loop of a struct\<close>



subsection \<open>Text that does not decode\<close>



subsection \<open>Maps\<close>

text \<open>
  C6, as the code has it. After the two type bytes and the entry count \<open>count\<close>, the map
  reader returns exactly when \<open>count\<close> pairs of a key of the key type and a value of the
  value type, each with id 0, were read one after the other, and the dictionary it
  returns holds exactly these pairs, in that order. The keys are new objects, compared
  by identity, so they are pairwise different and no entry replaces another one, also
  when two keys have the same decoded content.
\<close>

theorem read_map_keeps_every_entry:
  assumes "read_type_byte st = Inr (key_type, st1)"
    and "read_type_byte st1 = Inr (value_type, st2)"
    and "uleb128_decode st2 = Inr (count, st3)"
  shows "(read_map (read_value n) st = Some (Inr (d, st')) \<longleftrightarrow>
            length d = nat count
            \<and> pairs_in_order (read_value n) key_type value_type st3 d st')
      \<and> (pairs_in_order (read_value n) key_type value_type st3 d st' \<longrightarrow>
            distinct (map (\<lambda>p. oid (fst p)) d)
            \<and> (\<forall>p\<in>set d. bv_id (fst p) = 0 \<and> bv_type (fst p) = key_type
                  \<and> bv_id (snd p) = 0 \<and> bv_type (snd p) = value_type))"
proof (intro conjI impI)
  have "read_map (read_value n) st
      = read_map_loop (read_value n) key_type value_type (nat count) st3 []"
    using assms by (simp add: read_map_def)
  also have "\<dots> = Some (Inr (d, st')) \<longleftrightarrow>
      (\<exists>ps. d = [] @ ps \<and> length ps = nat count
         \<and> pairs_in_order (read_value n) key_type value_type st3 ps st')"
    by (rule read_map_loop_iff [OF read_value_allocating]) simp
  finally show "read_map (read_value n) st = Some (Inr (d, st')) \<longleftrightarrow>
      length d = nat count \<and> pairs_in_order (read_value n) key_type value_type st3 d st'"
    by auto
next
  assume p: "pairs_in_order (read_value n) key_type value_type st3 d st'"
  from pairs_in_order_oids [OF read_value_allocating p]
  show "distinct (map (\<lambda>p. oid (fst p)) d)" by simp
  from p show "\<forall>p\<in>set d. bv_id (fst p) = 0 \<and> bv_type (fst p) = key_type
      \<and> bv_id (snd p) = 0 \<and> bv_type (snd p) = value_type"
  proof (induction d arbitrary: st3)
    case Nil
    show ?case by simp
  next
    case (Cons q qs)
    obtain k v where q: "q = (k, v)" by (cases q)
    from Cons.prems obtain s1 s2 where 1: "read_value n 0 key_type st3 = Some (Inr (k, s1))"
      and 2: "read_value n 0 value_type s1 = Some (Inr (v, s2))"
      and 3: "pairs_in_order (read_value n) key_type value_type s2 qs st'"
      unfolding q pairs_in_order_Cons by blast
    from read_value_id_type [OF 1] read_value_id_type [OF 2] Cons.IH [OF 3]
    show ?case unfolding q by simp
  qed
qed

theorem read_map_keeps_every_entry_witness:
  "read_map (read_value 1) \<lparr>buf = [0x03, 0x10, 0x02, 5, 1, 6, 3], pos = 0, fresh = 0\<rparr>
     = Some (Inr ([(BondValue 0 0 Uint8 (PInt 5), BondValue 1 0 Int32 (PInt (- 1))),
                   (BondValue 2 0 Uint8 (PInt 6), BondValue 3 0 Int32 (PInt (- 2)))],
                  \<lparr>buf = [0x03, 0x10, 0x02, 5, 1, 6, 3], pos = 7, fresh = 4\<rparr>))"
proof -
  let ?b = "[0x03, 0x10, 0x02, 5, 1, 6, 3] :: 8 word list"
  have 1: "read_type_byte \<lparr>buf = ?b, pos = 0, fresh = 0\<rparr>
      = Inr (Uint8, \<lparr>buf = ?b, pos = 1, fresh = 0\<rparr>)"
    by (simp add: read_type_byte_def read_byte_eq BondType_of_def)
  have 2: "read_type_byte \<lparr>buf = ?b, pos = 1, fresh = 0\<rparr>
      = Inr (Int32, \<lparr>buf = ?b, pos = 2, fresh = 0\<rparr>)"
    by (simp add: read_type_byte_def read_byte_eq BondType_of_def)
  have 3: "uleb128_decode \<lparr>buf = ?b, pos = 2, fresh = 0\<rparr>
      = Inr (2, \<lparr>buf = ?b, pos = 3, fresh = 0\<rparr>)"
    by (simp add: uleb128_decode_def uleb128_loop.simps read_byte_eq)
  have p: "pairs_in_order (read_value 1) Uint8 Int32 \<lparr>buf = ?b, pos = 3, fresh = 0\<rparr>
      [(BondValue 0 0 Uint8 (PInt 5), BondValue 1 0 Int32 (PInt (- 1))),
       (BondValue 2 0 Uint8 (PInt 6), BondValue 3 0 Int32 (PInt (- 2)))]
      \<lparr>buf = ?b, pos = 7, fresh = 4\<rparr>"
    by (simp add: read_value_step_def read_payload_def payload_of_def payload_of_run_def
        sleb128_decode_def uleb128_decode_def uleb128_loop.simps read_byte_eq)
  from read_map_keeps_every_entry [OF 1 2 3, of 1] p show ?thesis by simp
qed

text \<open>
  Two entries whose keys both decode to the Uint8 value 5: the dictionary keeps both, and
  the first still holds its own value 1.
\<close>

theorem read_map_duplicate_keys_counterexample:
  "read_map (read_value 1) \<lparr>buf = [0x03, 0x03, 0x02, 5, 1, 5, 2], pos = 0, fresh = 0\<rparr>
     = Some (Inr ([(BondValue 0 0 Uint8 (PInt 5), BondValue 1 0 Uint8 (PInt 1)),
                   (BondValue 2 0 Uint8 (PInt 5), BondValue 3 0 Uint8 (PInt 2))],
                  \<lparr>buf = [0x03, 0x03, 0x02, 5, 1, 5, 2], pos = 7, fresh = 4\<rparr>))"
  by (simp add: read_map_def read_type_byte_def read_byte_eq BondType_of_def
      uleb128_decode_def uleb128_loop.simps read_map_loop_numeral
      read_value_step_def read_payload_def payload_of_def payload_of_run_def)

subsection \<open>Type bytes of a map\<close>

text \<open>
  C10. The map reader looks only at the low five bits of the key-type byte and of the
  value-type byte. Take two inputs of the same length that hold the same bytes after these
  two bytes, and whose key-type bytes and value-type bytes agree on their low five bits
  (they may differ in the high three bits). Then the map reader behaves in the same way on
  both: it returns the same dictionary at the same position, or raises the same error.
\<close>

theorem read_map_ignores_high_type_bits:
  assumes "length B = length (buf st)"
    and "drop (pos st + 2) B = drop (pos st + 2) (buf st)"
    and "pos st < length B \<Longrightarrow> B ! pos st AND 0x1F = buf st ! pos st AND 0x1F"
    and "pos st + 1 < length B \<Longrightarrow> B ! (pos st + 1) AND 0x1F = buf st ! (pos st + 1) AND 0x1F"
  shows "read_map (read_value n) (st\<lparr>buf := B\<rparr>) = with_buf_run B (read_map (read_value n) st)"
proof (cases "read_type_byte st")
  case (Inl e)
  with read_type_byte_masked [OF assms(1,3)] show ?thesis by (simp add: read_map_def)
next
  case (Inr x)
  obtain kt st1 where x: "x = (kt, st1)" by (cases x)
  from Inr x have 1: "read_type_byte st = Inr (kt, st1)" by simp
  then have p1: "pos st < length (buf st)" "st1 = st\<lparr>pos := Suc (pos st)\<rparr>"
    by (auto simp: read_type_byte_def read_byte_eq split: if_splits option.splits)
  from read_type_byte_masked [OF assms(1,3)] 1
  have k1: "read_type_byte (st\<lparr>buf := B\<rparr>) = Inr (kt, st1\<lparr>buf := B\<rparr>)" by simp
  from assms(1,4) p1 have m: "length B = length (buf st1)"
    "pos st1 < length B \<Longrightarrow> B ! pos st1 AND 0x1F = buf st1 ! pos st1 AND 0x1F"
    by simp_all
  show ?thesis
  proof (cases "read_type_byte st1")
    case (Inl e)
    with read_type_byte_masked [OF m] 1 k1 show ?thesis by (simp add: read_map_def)
  next
    case (Inr y)
    obtain vt st2 where y: "y = (vt, st2)" by (cases y)
    from Inr y have 2: "read_type_byte st1 = Inr (vt, st2)" by simp
    then have p2: "st2 = st1\<lparr>pos := Suc (pos st1)\<rparr>"
      by (auto simp: read_type_byte_def read_byte_eq split: if_splits option.splits)
    from read_type_byte_masked [OF m] 2
    have k2: "read_type_byte (st1\<lparr>buf := B\<rparr>) = Inr (vt, st2\<lparr>buf := B\<rparr>)" by simp
    from assms(2) p1 p2 have a2: "agree_from (pos st2) B (buf st2)"
      by (simp add: agree_from_def)
    show ?thesis
    proof (cases "uleb128_decode st2")
      case (Inl e)
      with 1 k1 2 k2 a2 show ?thesis by (simp add: read_map_def uleb128_decode_frame)
    next
      case (Inr z)
      obtain c st3 where z: "z = (c, st3)" by (cases z)
      from Inr z have 3: "uleb128_decode st2 = Inr (c, st3)" by simp
      from uleb128_decode_evolves [OF 3] a2 have a3: "agree_from (pos st3) B (buf st3)"
        by (auto intro: agree_from_evolves)
      from 1 k1 2 k2 3 a2
        read_map_loop_frame [OF read_value_framed read_value_allocating a3]
      show ?thesis by (simp add: read_map_def uleb128_decode_frame)
    qed
  qed
qed

theorem read_map_ignores_high_type_bits_witness:
  "read_map (read_value 1) \<lparr>buf = [0xE3, 0x50, 0x02, 5, 1, 6, 3], pos = 0, fresh = 0\<rparr>
     = Some (Inr ([(BondValue 0 0 Uint8 (PInt 5), BondValue 1 0 Int32 (PInt (- 1))),
                   (BondValue 2 0 Uint8 (PInt 6), BondValue 3 0 Int32 (PInt (- 2)))],
                  \<lparr>buf = [0xE3, 0x50, 0x02, 5, 1, 6, 3], pos = 7, fresh = 4\<rparr>))"
proof -
  let ?b = "[0x03, 0x10, 0x02, 5, 1, 6, 3] :: 8 word list"
  let ?B = "[0xE3, 0x50, 0x02, 5, 1, 6, 3] :: 8 word list"
  have r: "read_map (read_value 1) \<lparr>buf = ?b, pos = 0, fresh = 0\<rparr>
     = Some (Inr ([(BondValue 0 0 Uint8 (PInt 5), BondValue 1 0 Int32 (PInt (- 1))),
                   (BondValue 2 0 Uint8 (PInt 6), BondValue 3 0 Int32 (PInt (- 2)))],
                  \<lparr>buf = ?b, pos = 7, fresh = 4\<rparr>))"
    by (simp add: read_map_def read_type_byte_def read_byte_eq BondType_of_def
        uleb128_decode_def sleb128_decode_def uleb128_loop.simps read_map_loop_numeral
        read_value_step_def read_payload_def payload_of_def payload_of_run_def)
  from read_map_ignores_high_type_bits [of ?B "\<lparr>buf = ?b, pos = 0, fresh = 0\<rparr>" 1] r
  show ?thesis by simp
qed

end
